theory Spec2Isabelle
  imports Main "HOL-Library.Sublist"
begin

section \<open>JavaScript strings and values\<close>

text \<open>
  A JavaScript string is modelled as a \<open>string\<close>, one \<open>char\<close> per code unit (code units
  below 256). The externals of the front end are parameters of the model: the markdown
  renderer \<open>marked.parse\<close> (its first argument here is the option \<open>breaks\<close>), \<open>JSON.parse\<close>
  (\<open>None\<close> when it throws a SyntaxError) and the truthiness of a JavaScript number.
\<close>

datatype 'n jsval =
    Undefined
  | Null
  | Bool bool
  | Num 'n
  | Str string
  | Arr "'n jsval list"
  | Obj "(string \<times> 'n jsval) list"

datatype js_error = SyntaxError | TypeError

record 'n env =
  marked_parse :: "bool \<Rightarrow> string \<Rightarrow> string"
  JSON_parse :: "string \<Rightarrow> 'n jsval option"
  num_truthy :: "'n \<Rightarrow> bool"

text \<open>
  Property read \<open>v.name\<close>, for the names that the handlers read (\<open>type\<close>, \<open>data\<close>, \<open>options\<close>,
  \<open>xy\<close>, \<open>ubication\<close>, none of which is inherited from a prototype): a TypeError on \<open>null\<close>
  and \<open>undefined\<close>, \<open>undefined\<close> for a property that is absent. An object is the list of its
  own properties, each name once.
\<close>

fun get_prop :: "'n jsval \<Rightarrow> string \<Rightarrow> js_error + 'n jsval" where
  "get_prop Undefined name = Inl TypeError"
| "get_prop Null name = Inl TypeError"
| "get_prop (Obj kvs) name = Inr (case map_of kvs name of Some v \<Rightarrow> v | None \<Rightarrow> Undefined)"
| "get_prop v name = Inr Undefined"

fun truthy :: "'n env \<Rightarrow> 'n jsval \<Rightarrow> bool" where
  "truthy E Undefined = False"
| "truthy E Null = False"
| "truthy E (Bool b) = b"
| "truthy E (Num n) = num_truthy E n"
| "truthy E (Str s) = (s \<noteq> [])"
| "truthy E (Arr vs) = True"
| "truthy E (Obj kvs) = True"

text \<open>\<open>a || b\<close>\<close>

definition js_or :: "'n env \<Rightarrow> 'n jsval \<Rightarrow> 'n jsval \<Rightarrow> 'n jsval" where
  "js_or E a b = (if truthy E a then a else b)"

definition newline :: char where
  "newline = CHR 0x0A"

text \<open>White space of \<open>String.prototype.trim\<close> among the code units below 256: TAB, LF, VT,
  FF, CR, space and the no-break space.\<close>

definition is_space :: "char \<Rightarrow> bool" where
  "is_space c \<longleftrightarrow> c \<in> set [CHR 0x09, CHR 0x0A, CHR 0x0B, CHR 0x0C, CHR 0x0D, CHR 0x20, CHR 0xA0]"

definition trim :: "string \<Rightarrow> string" where
  "trim s = rev (dropWhile is_space (rev (dropWhile is_space s)))"

text \<open>\<open>s.slice(a, b)\<close> for \<open>0 \<le> a\<close> and \<open>0 \<le> b\<close>; \<open>s.slice(a)\<close> is \<open>drop a s\<close>.\<close>

definition slice :: "string \<Rightarrow> nat \<Rightarrow> nat \<Rightarrow> string" where
  "slice s a b = take (b - a) (drop a s)"

text \<open>The first occurrence of \<open>pat\<close> in a string: the text before it and the text after it.\<close>

fun find_sub :: "string \<Rightarrow> string \<Rightarrow> (string \<times> string) option" where
  "find_sub pat [] = (if pat = [] then Some ([], []) else None)"
| "find_sub pat (c # cs) =
     (if prefix pat (c # cs) then Some ([], drop (length pat) (c # cs))
      else (case find_sub pat cs of
              None \<Rightarrow> None
            | Some (b, a) \<Rightarrow> Some (c # b, a)))"

section \<open>The content block parser of an assistant message\<close>

subsection \<open>The tag pattern\<close>

text \<open>
  \<^verbatim>\<open>const regex = /<(citations|table|chart|code|doc|image|card|map)>(.*?)<\/\1>/gs;\<close>

  At one position the alternatives are tried in the order written. After the opening tag
  the lazy \<open>(.*?)\<close> (with the \<open>s\<close> flag, so any character) grows until the closing tag of the
  same kind matches: the capture ends at the first closing tag. When there is none the
  alternative fails and the next one is tried.
\<close>

definition kinds :: "string list" where
  "kinds = [''citations'', ''table'', ''chart'', ''code'', ''doc'', ''image'', ''card'', ''map'']"

definition open_tag :: "string \<Rightarrow> string" where
  "open_tag k = ''<'' @ k @ ''>''"

definition close_tag :: "string \<Rightarrow> string" where
  "close_tag k = ''</'' @ k @ ''>''"

fun alternatives :: "string list \<Rightarrow> string \<Rightarrow> (string \<times> string) option" where
  "alternatives [] s = None"
| "alternatives (k # ks) s =
     (if prefix (open_tag k) s then
        (case find_sub (close_tag k) (drop (length (open_tag k)) s) of
           Some (c, r) \<Rightarrow> Some (k, c)
         | None \<Rightarrow> alternatives ks s)
      else alternatives ks s)"

text \<open>The pattern anchored at the start of \<open>s\<close>: the captures \<open>p1\<close> and \<open>p2\<close>.\<close>

definition regex_at :: "string \<Rightarrow> (string \<times> string) option" where
  "regex_at s = alternatives kinds s"

record rmatch =
  m_offset :: nat
  m_match :: string
  m_p1 :: string
  m_p2 :: string

text \<open>
  The matches that \<open>String.prototype.replace\<close> hands to its callback for a global pattern:
  the search starts at index 0; a position without a match moves the search one code unit
  on, a match moves it to the end of the match; it stops once the index passes the length.
\<close>

function exec_from :: "nat \<Rightarrow> string \<Rightarrow> rmatch list" where
  "exec_from i s =
     (if length s < i then []
      else (case regex_at (drop i s) of
              None \<Rightarrow> exec_from (Suc i) s
            | Some (k, c) \<Rightarrow>
                \<lparr>m_offset = i, m_match = open_tag k @ c @ close_tag k, m_p1 = k, m_p2 = c\<rparr>
                  # exec_from (i + length (open_tag k @ c @ close_tag k)) s))"
  by pat_completeness auto
termination
  by (relation "measure (\<lambda>(i, s). Suc (length s) - i)") (auto simp: open_tag_def)

declare exec_from.simps [simp del]

subsection \<open>Content blocks and the handlers of the tag kinds\<close>

text \<open>
  The objects pushed on \<open>extractedContent\<close>: \<open>{type, value}\<close>, \<open>{type: 'code', value, lang}\<close>,
  \<open>{type: 'chart', chartType, data, options}\<close>, \<open>{type: 'card', value}\<close> and
  \<open>{type: 'map', xy, ubication}\<close>.
\<close>

datatype 'n block =
    Plain string string
  | CodeB string string
  | ChartB "'n jsval" "'n jsval" "'n jsval"
  | CardB "'n jsval"
  | MapB "'n jsval" "'n jsval"


text \<open>\<^verbatim>\<open>const cleanContent = (content) => marked.parse(content.trim(), { breaks: true });\<close>\<close>

definition cleanContent :: "'n env \<Rightarrow> string \<Rightarrow> string" where
  "cleanContent E content = marked_parse E True (trim content)"

text \<open>
  \<^verbatim>\<open>/```(\w*)\n([\s\S]*?)```/.exec(p2)\<close>

  At one position: three backquotes, the longest run of word characters (a shorter run is
  followed by a word character, never by the line feed the pattern asks for next), a line
  feed, and the shortest text up to three backquotes. \<open>exec\<close> returns the leftmost match.
\<close>

definition is_word :: "char \<Rightarrow> bool" where
  "is_word c \<longleftrightarrow>
     c \<in> set ''abcdefghijklmnopqrstuvwxyzABCDEFGHIJKLMNOPQRSTUVWXYZ0123456789_''"

definition fence :: string where
  "fence = [CHR 0x60, CHR 0x60, CHR 0x60]"

definition fence_at :: "string \<Rightarrow> (string \<times> string) option" where
  "fence_at s =
     (if prefix fence s then
        (case dropWhile is_word (drop (length fence) s) of
           [] \<Rightarrow> None
         | c # r \<Rightarrow>
             if c = newline then
               (case find_sub fence r of
                  Some (body, r') \<Rightarrow> Some (takeWhile is_word (drop (length fence) s), body)
                | None \<Rightarrow> None)
             else None)
      else None)"

fun code_exec :: "string \<Rightarrow> (string \<times> string) option" where
  "code_exec [] = None"
| "code_exec (c # cs) =
     (case fence_at (c # cs) of
        Some m \<Rightarrow> Some m
      | None \<Rightarrow> code_exec cs)"

definition code_handler :: "'n env \<Rightarrow> string \<Rightarrow> js_error + 'n block" where
  "code_handler E p2 =
     (case code_exec p2 of
        Some (lang, body) \<Rightarrow> Inr (CodeB (cleanContent E body) lang)
      | None \<Rightarrow> Inr (CodeB (cleanContent E p2) ''plain-text''))"

definition chart_handler :: "'n env \<Rightarrow> string \<Rightarrow> js_error + 'n block" where
  "chart_handler E p2 =
     (case JSON_parse E p2 of
        None \<Rightarrow> Inl SyntaxError
      | Some chartData \<Rightarrow>
          (case get_prop chartData ''data'' of
             Inl e \<Rightarrow> Inl e
           | Inr logged \<Rightarrow>
               (case get_prop chartData ''type'' of
                  Inl e \<Rightarrow> Inl e
                | Inr t \<Rightarrow>
                    (case get_prop chartData ''data'' of
                       Inl e \<Rightarrow> Inl e
                     | Inr d \<Rightarrow>
                         (case get_prop chartData ''options'' of
                            Inl e \<Rightarrow> Inl e
                          | Inr opts \<Rightarrow> Inr (ChartB t d (js_or E opts (Obj []))))))))"

definition card_handler :: "'n env \<Rightarrow> string \<Rightarrow> js_error + 'n block" where
  "card_handler E p2 =
     (case JSON_parse E p2 of
        None \<Rightarrow> Inl SyntaxError
      | Some cardData \<Rightarrow> Inr (CardB cardData))"

definition map_handler :: "'n env \<Rightarrow> string \<Rightarrow> js_error + 'n block" where
  "map_handler E p2 =
     (case JSON_parse E p2 of
        None \<Rightarrow> Inl SyntaxError
      | Some mapData \<Rightarrow>
          (case get_prop mapData ''xy'' of
             Inl e \<Rightarrow> Inl e
           | Inr xy \<Rightarrow>
               (case get_prop mapData ''ubication'' of
                  Inl e \<Rightarrow> Inl e
                | Inr u \<Rightarrow> Inr (MapB xy u))))"

text \<open>The table \<open>typeHandlers\<close>; its \<open>doc\<close> and \<open>table\<close> entries are commented out in the
  source.\<close>

definition typeHandlers :: "'n env \<Rightarrow> string \<Rightarrow> (string \<Rightarrow> js_error + 'n block) option" where
  "typeHandlers E =
     [''code'' \<mapsto> code_handler E,
      ''chart'' \<mapsto> chart_handler E,
      ''card'' \<mapsto> card_handler E,
      ''map'' \<mapsto> map_handler E]"

text \<open>\<^verbatim>\<open>typeHandlers[p1] || ((p2) => ({ type: p1, value: cleanContent(p2) }))\<close>, applied to
  \<open>p2\<close>.\<close>

definition handler :: "'n env \<Rightarrow> string \<Rightarrow> string \<Rightarrow> js_error + 'n block" where
  "handler E k c =
     (case typeHandlers E k of
        Some h \<Rightarrow> h c
      | None \<Rightarrow> Inr (Plain k (cleanContent E c)))"

subsection \<open>processMessage\<close>

text \<open>
  The state of the scan: the local \<open>lastIndex\<close> and the component's \<open>extractedContent\<close>,
  which starts empty and is filled by \<open>push\<close>. An exception thrown by a handler leaves
  \<open>processMessage\<close>; what was pushed before stays in \<open>extractedContent\<close>.
\<close>

record 'n pstate =
  lastIndex :: nat
  extractedContent :: "'n block list"

definition text_block :: "'n env \<Rightarrow> string \<Rightarrow> 'n block" where
  "text_block E span = Plain ''text'' (cleanContent E (trim span))"

definition callback :: "'n env \<Rightarrow> string \<Rightarrow> rmatch \<Rightarrow> 'n pstate \<Rightarrow> 'n pstate \<times> js_error option" where
  "callback E messageText m st =
     (let st1 = (if lastIndex st < m_offset m
                 then st\<lparr>extractedContent := extractedContent st
                        @ [text_block E (slice messageText (lastIndex st) (m_offset m))]\<rparr>
                 else st)
      in case handler E (m_p1 m) (m_p2 m) of
           Inl e \<Rightarrow> (st1, Some e)
         | Inr b \<Rightarrow>
             (st1\<lparr>extractedContent := extractedContent st1 @ [b],
                  lastIndex := m_offset m + length (m_match m)\<rparr>, None))"

fun run_callbacks ::
  "'n env \<Rightarrow> string \<Rightarrow> rmatch list \<Rightarrow> 'n pstate \<Rightarrow> 'n pstate \<times> js_error option" where
  "run_callbacks E messageText [] st = (st, None)"
| "run_callbacks E messageText (m # ms) st =
     (case callback E messageText m st of
        (st', Some e) \<Rightarrow> (st', Some e)
      | (st', None) \<Rightarrow> run_callbacks E messageText ms st')"

text \<open>The part of \<open>processMessage\<close> after the \<open>replace\<close> call; it is not reached when the
  call has thrown.\<close>

definition finish :: "'n env \<Rightarrow> string \<Rightarrow> 'n pstate \<times> js_error option \<Rightarrow> 'n block list \<times> js_error option" where
  "finish E messageText r =
     (case r of
        (st, Some e) \<Rightarrow> (extractedContent st, Some e)
      | (st, None) \<Rightarrow>
          (if lastIndex st < length messageText
           then extractedContent st @ [text_block E (drop (lastIndex st) messageText)]
           else extractedContent st, None))"

text \<open>The result: the final \<open>extractedContent\<close> and the exception that left the function,
  if any.\<close>

definition processMessage :: "'n env \<Rightarrow> string \<Rightarrow> 'n block list \<times> js_error option" where
  "processMessage E messageText =
     finish E messageText
       (run_callbacks E messageText (exec_from 0 messageText)
          \<lparr>lastIndex = 0, extractedContent = []\<rparr>)"

section \<open>The local echo of an outbound message\<close>

text \<open>\<open>s.split(sep)\<close> for a separator of one code unit: never an empty array.\<close>

fun split_on :: "char \<Rightarrow> string \<Rightarrow> string list" where
  "split_on sep [] = [[]]"
| "split_on sep (c # cs) =
     (if c = sep then [] # split_on sep cs
      else (case split_on sep cs of
              [] \<Rightarrow> [[c]]
            | seg # segs \<Rightarrow> (c # seg) # segs))"








section \<open>The message list and the session identifier\<close>

text \<open>
  A message is \<open>{id, isUser, isLoading, text, isError, isFirst, sources}\<close> (\<open>text\<close> is the field
  \<open>m_text\<close> here); a field that the source leaves out is \<open>None\<close> (or \<open>False\<close> for the flags,
  which are only tested for truth).
  The identifier of a user message is a count, that of an assistant message is a
  \<open>Math.random()\<close> draw, which is an input of the model.
\<close>

datatype 'r ident = Count nat | Random 'r

record ('r, 's) message =
  msg_id :: "'r ident option"
  isUser :: bool
  isLoading :: bool
  m_text :: "string option"
  isError :: bool
  isFirst :: "bool option"
  sources :: "'s list option"

definition handleUserMessage ::
  "bool \<Rightarrow> string \<Rightarrow> ('r, 's) message list \<Rightarrow> ('r, 's) message list" where
  "handleUserMessage loading newMessage messages =
     (if loading then
        messages @ [\<lparr>msg_id = None, isUser = True, isLoading = loading,
                     m_text = Some ''procesando audio...'', isError = False, isFirst = None,
                     sources = None\<rparr>]
      else
        (let messages1 =
           (if (case messages of [] \<Rightarrow> False | m # ms \<Rightarrow> isUser (last messages))
            then butlast messages else messages)
         in messages1 @ [\<lparr>msg_id = Some (Count (length messages1 + 1)), isUser = True,
                          isLoading = False, m_text = Some newMessage, isError = False,
                          isFirst = None, sources = None\<rparr>]))"

text \<open>The argument \<open>''\<close> of a call that adds a placeholder; it is not read.\<close>

definition no_message :: "('r, 's) message" where
  "no_message =
     \<lparr>msg_id = None, isUser = False, isLoading = False, m_text = None, isError = False,
      isFirst = None, sources = None\<rparr>"

definition handleBotMessage ::
  "bool \<Rightarrow> ('r, 's) message \<Rightarrow> ('r, 's) message list \<Rightarrow> ('r, 's) message list" where
  "handleBotMessage loading newMessage messages =
     (if loading then
        messages @ [\<lparr>msg_id = None, isUser = False, isLoading = loading, m_text = None,
                     isError = False, isFirst = None, sources = None\<rparr>]
      else
        butlast messages @ [newMessage\<lparr>isFirst := Some (messages = [])\<rparr>])"

text \<open>
  The page: the message list of the chat and \<open>localStorage\<close>. The answer of the back end
  to \<open>api.requestCHAT\<close> is an input of the model: the call is rejected, or resolves with
  \<open>{response, session_id, sources}\<close>.
\<close>

record ('r, 's) page =
  messages :: "('r, 's) message list"
  localStorage :: "string \<rightharpoonup> string"

record chat_request =
  query :: string
  session_id :: "string option"

record 's chat_result =
  response :: string
  result_session_id :: "string option"
  result_sources :: "'s list option"

datatype 's outcome = Rejected | Resolved "'s chat_result"

definition error_message :: "'r \<Rightarrow> ('r, 's) message" where
  "error_message r =
     \<lparr>msg_id = Some (Random r), isUser = False, isLoading = False,
      m_text = Some ''Lo siento, ha ocurrido un error. Por favor, intenta de nuevo.'',
      isError = True, isFirst = None, sources = None\<rparr>"

text \<open>The request that \<open>fetchCHAT\<close> builds:
  \<^verbatim>\<open>if (sessionId && sessionId.startsWith('sess_')) { data.session_id = sessionId; }\<close>\<close>

definition chat_data :: "string \<Rightarrow> (string \<rightharpoonup> string) \<Rightarrow> chat_request" where
  "chat_data msg store =
     (let sessionId = store ''session_id'' in
      \<lparr>query = msg,
       session_id =
         (case sessionId of
            None \<Rightarrow> None
          | Some v \<Rightarrow> if v \<noteq> [] \<and> prefix ''sess_'' v then Some v else None)\<rparr>)"

text \<open>
  \<open>fetchCHAT\<close> is an \<open>async\<close> function: it runs up to its \<open>await\<close>, and the rest runs when
  the call settles, on the page as it is then. The two parts are two steps of the model.

  Up to the \<open>await\<close>: the user message and the pending placeholder of the assistant are
  added (\<open>addMessage(true, false, msg)\<close>, \<open>addMessage(false, true, '')\<close>, which call
  \<open>handleUserMessage\<close> and \<open>handleBotMessage\<close>), and the request is built and sent.
\<close>

definition fetchCHAT_send ::
  "string \<Rightarrow> ('r, 's) page \<Rightarrow> chat_request \<times> ('r, 's) page" where
  "fetchCHAT_send msg pg =
     (let pg1 = pg\<lparr>messages := handleUserMessage False msg (messages pg)\<rparr>;
          pg2 = pg1\<lparr>messages := handleBotMessage True no_message (messages pg1)\<rparr>
      in (chat_data msg (localStorage pg2), pg2))"

text \<open>After the \<open>await\<close>: the rest of the \<open>try\<close> block when the call has resolved, the
  \<open>catch\<close> block when it was rejected.\<close>

definition fetchCHAT_settle ::
  "'r \<Rightarrow> 's outcome \<Rightarrow> ('r, 's) page \<Rightarrow> ('r, 's) page" where
  "fetchCHAT_settle r answer pg =
     (case answer of
        Resolved result \<Rightarrow>
          (let pg3 =
             (case result_session_id result of
                None \<Rightarrow> pg
              | Some v \<Rightarrow>
                  if v \<noteq> [] then pg\<lparr>localStorage := (localStorage pg)(''session_id'' \<mapsto> v)\<rparr>
                  else pg);
               processedResult =
                 \<lparr>msg_id = Some (Random r), isUser = False, isLoading = False,
                  m_text = Some (response result), isError = False, isFirst = None,
                  sources = Some (case result_sources result of None \<Rightarrow> [] | Some l \<Rightarrow> l)\<rparr>
           in pg3\<lparr>messages := handleBotMessage False processedResult (messages pg3)\<rparr>)
      | Rejected \<Rightarrow>
          pg\<lparr>messages := handleBotMessage False (error_message r) (messages pg)\<rparr>)"

text \<open>The greeting; its text is written here without the characters outside ASCII.\<close>

definition greeting :: "'r \<Rightarrow> ('r, 's) message" where
  "greeting r =
     \<lparr>msg_id = Some (Random r), isUser = False, isLoading = False,
      m_text = Some ''Hola! Soy tu asistente virtual, listo para ayudarte en lo que necesites.'',
      isError = False, isFirst = None, sources = None\<rparr>"

text \<open>\<open>onMounted\<close> of the page: a stored session identifier without the prefix is removed,
  and the greeting is added.\<close>

definition onMounted :: "'r \<Rightarrow> ('r, 's) page \<Rightarrow> ('r, 's) page" where
  "onMounted r pg =
     (let store1 = (localStorage pg)(''transcription'' \<mapsto> ''null'');
          existingSessionId = store1 ''session_id'';
          store2 =
            (case existingSessionId of
               None \<Rightarrow> store1
             | Some v \<Rightarrow>
                 if v \<noteq> [] \<and> \<not> prefix ''sess_'' v then store1(''session_id'' := None)
                 else store1)
      in \<lparr>messages = handleBotMessage False (greeting r) (messages pg),
          localStorage = store2\<rparr>)"

text \<open>
  \<^verbatim>\<open>const cleanMessages = () => { if (messages.value.length > 1) { messages.value = []; addMessage(false, false, {...}) } }\<close>
  and \<open>cleanChat\<close>, which also removes the stored session identifier.
\<close>

definition cleanMessages :: "'r \<Rightarrow> ('r, 's) message list \<Rightarrow> ('r, 's) message list" where
  "cleanMessages r ms = (if 1 < length ms then handleBotMessage False (greeting r) [] else ms)"

definition cleanChat :: "'r \<Rightarrow> ('r, 's) page \<Rightarrow> ('r, 's) page" where
  "cleanChat r pg =
     pg\<lparr>messages := cleanMessages r (messages pg),
        localStorage := (localStorage pg)(''session_id'' := None)\<rparr>"

text \<open>
  What happens to the page, one event after the other: the user sends a text, a call that
  is in flight settles, the user clears the chat. Nothing in the source keeps the user from
  sending or clearing while a call is in flight.
\<close>

datatype ('r, 's) event = Send string | Settle 'r "'s outcome" | Clean 'r

fun step :: "('r, 's) event \<Rightarrow> ('r, 's) page \<Rightarrow> ('r, 's) page" where
  "step (Send msg) pg = snd (fetchCHAT_send msg pg)"
| "step (Settle r answer) pg = fetchCHAT_settle r answer pg"
| "step (Clean r) pg = cleanChat r pg"

definition run :: "('r, 's) event list \<Rightarrow> ('r, 's) page \<Rightarrow> ('r, 's) page" where
  "run es pg = fold step es pg"


section \<open>Votes\<close>

text \<open>
  The vote of an assistant message is the \<open>selectedVote\<close> of its component, \<open>null\<close> (here
  \<open>None\<close>) until a button is pressed. \<open>handlevote\<close> returns the new value and the request
  it tries to send, if any; the outcome of the request is caught and only logged.
\<close>

definition handlevote ::
  "'i \<Rightarrow> bool \<Rightarrow> bool option \<Rightarrow> bool option \<times> ('i \<times> bool) option" where
  "handlevote msg_ident vote selectedVote =
     (if selectedVote = None then (Some vote, Some (msg_ident, vote))
      else (selectedVote, None))"

section \<open>The decomposition of a message into gaps and tagged regions\<close>

text \<open>
  The reading of the parser that the properties below are stated against: the first match
  of the tag pattern cuts the text into the gap before it, the tagged region, and the rest,
  which is cut in the same way. Gaps may be empty; the pieces are kept in source order.
\<close>

datatype piece = Gap string | Region string string

fun first_match :: "string \<Rightarrow> (string \<times> string \<times> string \<times> string) option" where
  "first_match [] = None"
| "first_match (x # xs) =
     (case regex_at (x # xs) of
        Some (k, c) \<Rightarrow> Some ([], k, c, drop (length (open_tag k @ c @ close_tag k)) (x # xs))
      | None \<Rightarrow>
          (case first_match xs of
             None \<Rightarrow> None
           | Some (pre, k, c, rest) \<Rightarrow> Some (x # pre, k, c, rest)))"

lemma find_sub_decomp: "find_sub pat s = Some (b, a) \<Longrightarrow> s = b @ pat @ a"
proof (induction s arbitrary: b)
  case Nil
  then show ?case by (simp split: if_splits)
next
  case (Cons c cs)
  show ?case
  proof (cases "prefix pat (c # cs)")
    case True
    with Cons.prems have "b = []" and "a = drop (length pat) (c # cs)" by simp_all
    moreover from True obtain r where "c # cs = pat @ r" by (auto simp: prefix_def)
    ultimately show ?thesis by simp
  next
    case False
    with Cons.prems obtain b' where "find_sub pat cs = Some (b', a)" and "b = c # b'"
      by (auto split: option.splits)
    with Cons.IH show ?thesis by simp
  qed
qed

lemma alternatives_decomp:
  "alternatives ks s = Some (k, c) \<Longrightarrow> k \<in> set ks \<and> (\<exists>r. s = open_tag k @ c @ close_tag k @ r)"
proof (induction ks)
  case Nil
  then show ?case by simp
next
  case (Cons k' ks)
  show ?case
  proof (cases "prefix (open_tag k') s \<and> find_sub (close_tag k') (drop (length (open_tag k')) s) \<noteq> None")
    case True
    then obtain c' r where f: "find_sub (close_tag k') (drop (length (open_tag k')) s) = Some (c', r)"
      by auto
    with True Cons.prems have eq: "k = k'" "c = c'" by simp_all
    from True obtain t where t: "s = open_tag k' @ t" by (auto simp: prefix_def)
    from find_sub_decomp [OF f] t have "t = c' @ close_tag k' @ r" by simp
    with t eq show ?thesis by auto
  next
    case False
    with Cons.prems have "alternatives ks s = Some (k, c)" by (auto split: option.splits if_splits)
    with Cons.IH show ?thesis by auto
  qed
qed

lemma regex_at_decomp:
  "regex_at s = Some (k, c) \<Longrightarrow> k \<in> set kinds \<and> (\<exists>r. s = open_tag k @ c @ close_tag k @ r)"
  unfolding regex_at_def by (rule alternatives_decomp)

lemma first_match_decomp:
  "first_match s = Some (pre, k, c, rest) \<Longrightarrow>
     s = pre @ open_tag k @ c @ close_tag k @ rest \<and> k \<in> set kinds"
proof (induction s arbitrary: pre)
  case Nil
  then show ?case by simp
next
  case (Cons x xs)
  show ?case
  proof (cases "regex_at (x # xs)")
    case None
    with Cons.prems obtain pre' where "first_match xs = Some (pre', k, c, rest)" and "pre = x # pre'"
      by (auto split: option.splits)
    with Cons.IH show ?thesis by simp
  next
    case (Some kc)
    with Cons.prems have r: "regex_at (x # xs) = Some (k, c)" and "pre = []"
      and rest: "rest = drop (length (open_tag k @ c @ close_tag k)) (x # xs)"
      by (auto split: prod.splits)
    from regex_at_decomp [OF r] obtain r' where "x # xs = open_tag k @ c @ close_tag k @ r'"
      and "k \<in> set kinds" by auto
    with rest \<open>pre = []\<close> show ?thesis by simp
  qed
qed

lemma first_match_shorter:
  "first_match s = Some (pre, k, c, rest) \<Longrightarrow> length rest < length s"
  by (drule first_match_decomp) (auto simp: open_tag_def)

function pieces :: "string \<Rightarrow> piece list" where
  "pieces s =
     (case first_match s of
        None \<Rightarrow> [Gap s]
      | Some (pre, k, c, rest) \<Rightarrow> Gap pre # Region k c # pieces rest)"
  by pat_completeness auto
termination
  by (relation "measure length") (auto dest: first_match_shorter)

declare pieces.simps [simp del]

fun source :: "piece \<Rightarrow> string" where
  "source (Gap g) = g"
| "source (Region k c) = open_tag k @ c @ close_tag k"

fun emit :: "'n env \<Rightarrow> piece list \<Rightarrow> 'n block list \<Rightarrow> 'n block list \<times> js_error option" where
  "emit E [] acc = (acc, None)"
| "emit E (Gap g # ps) acc = emit E ps (if g = [] then acc else acc @ [text_block E g])"
| "emit E (Region k c # ps) acc =
     (case handler E k c of
        Inl e \<Rightarrow> (acc, Some e)
      | Inr b \<Rightarrow> emit E ps (acc @ [b]))"

text \<open>The pieces that are not an empty gap, and the block that a piece stands for.\<close>

definition kept :: "string \<Rightarrow> piece list" where
  "kept s = filter (\<lambda>p. p \<noteq> Gap []) (pieces s)"

fun block_of :: "'n env \<Rightarrow> piece \<Rightarrow> js_error + 'n block" where
  "block_of E (Gap g) = Inr (text_block E g)"
| "block_of E (Region k c) = handler E k c"

text \<open>The source spans of the blocks that \<open>processMessage\<close> has emitted: the first blocks
  stand for the first kept pieces (lemma \<open>emit_prefix\<close>).\<close>

definition emitted_spans :: "'n env \<Rightarrow> string \<Rightarrow> string list" where
  "emitted_spans E s = map source (take (length (fst (processMessage E s))) (kept s))"

text \<open>A small environment for concrete runs: the renderer returns its input, and
  \<open>JSON.parse\<close> is given on the three texts used below (\<open>x\<close> is not JSON).\<close>

definition E0 :: "nat env" where
  "E0 = \<lparr>marked_parse = (\<lambda>breaks s. s),
         JSON_parse = (\<lambda>s. if s = ''{}'' then Some (Obj [])
                            else if s = ''null'' then Some Null
                            else None),
         num_truthy = (\<lambda>n. n \<noteq> 0)\<rparr>"

text \<open>A user message, for concrete runs of the message list.\<close>

definition user_msg :: "nat \<Rightarrow> string \<Rightarrow> (nat, nat) message" where
  "user_msg n t =
     \<lparr>msg_id = Some (Count n), isUser = True, isLoading = False, m_text = Some t,
      isError = False, isFirst = None, sources = None\<rparr>"

text \<open>A page whose stored session identifier lacks the prefix \<open>sess_\<close>.\<close>

definition page0 :: "(nat, nat) page" where
  "page0 = \<lparr>messages = [greeting 0], localStorage = [''session_id'' \<mapsto> ''abc123'']\<rparr>"

text \<open>The page right after its \<open>onMounted\<close>, with nothing stored before.\<close>

definition page1 :: "(nat, nat) page" where
  "page1 = onMounted 0 \<lparr>messages = [], localStorage = Map.empty\<rparr>"





text \<open>The blocks that a piece contributes when the parse runs to its end: none for an
  empty gap.\<close>

fun blocks_of :: "'n env \<Rightarrow> piece \<Rightarrow> 'n block list" where
  "blocks_of E (Gap g) = (if g = [] then [] else [text_block E g])"
| "blocks_of E (Region k c) = (case handler E k c of Inl e \<Rightarrow> [] | Inr b \<Rightarrow> [b])"




text \<open>
  The fenced-code sub-pattern of the specification: somewhere in the content, three
  backquotes, a language token of word characters, a line feed, a body, three backquotes.
\<close>

definition fenced :: "string \<Rightarrow> string \<Rightarrow> string \<Rightarrow> string \<Rightarrow> string \<Rightarrow> bool" where
  "fenced p2 pre lang body post \<longleftrightarrow>
     p2 = pre @ fence @ lang @ [newline] @ body @ fence @ post \<and> (\<forall>c \<in> set lang. is_word c)"

text \<open>An environment whose renderer is not the identity: it wraps its input in a
  paragraph element.\<close>

definition E1 :: "nat env" where
  "E1 = \<lparr>marked_parse = (\<lambda>breaks s. ''<p>'' @ s @ ''</p>''),
         JSON_parse = JSON_parse E0,
         num_truthy = (\<lambda>n. n \<noteq> 0)\<rparr>"







section \<open>The parser follows the decomposition\<close>

lemma concat_pieces: "concat (map source (pieces s)) = s"
proof (induction s rule: pieces.induct)
  case (1 s)
  show ?case
  proof (cases "first_match s")
    case None
    then show ?thesis by (simp add: pieces.simps)
  next
    case (Some q)
    then obtain pre k c rest where q: "first_match s = Some (pre, k, c, rest)"
      by (cases q) auto
    from "1.IH" [OF q] have "concat (map source (pieces rest)) = rest" by simp
    with first_match_decomp [OF q] q show ?thesis
      by (subst pieces.simps) simp
  qed
qed

lemma regex_at_Nil: "regex_at [] = None"
  by (simp add: regex_at_def kinds_def open_tag_def)

lemma exec_from_none:
  "first_match (drop i s) = None \<Longrightarrow> exec_from i s = []"
proof (induction "Suc (length s) - i" arbitrary: i)
  case 0
  then show ?case by (simp add: exec_from.simps)
next
  case (Suc n)
  show ?case
  proof (cases "drop i s")
    case Nil
    then have "exec_from i s = (if length s < i then [] else exec_from (Suc i) s)"
      by (subst exec_from.simps) (simp add: regex_at_Nil)
    moreover from Nil have "length s < Suc i" by simp
    then have "exec_from (Suc i) s = []" by (subst exec_from.simps) simp
    ultimately show ?thesis by simp
  next
    case (Cons x xs)
    then have d: "drop (Suc i) s = xs" by (metis drop_Suc tl_drop list.sel(3))
    from Cons Suc.prems have r: "regex_at (drop i s) = None" and f: "first_match xs = None"
      by (auto split: option.splits)
    from Suc.hyps have "n = Suc (length s) - Suc i" by simp
    from Suc.hyps(1) [OF this] f d have "exec_from (Suc i) s = []" by simp
    with r show ?thesis by (simp add: exec_from.simps [of i])
  qed
qed

lemma exec_from_some:
  "first_match (drop i s) = Some (pre, k, c, rest) \<Longrightarrow>
     exec_from i s =
       \<lparr>m_offset = i + length pre, m_match = open_tag k @ c @ close_tag k, m_p1 = k, m_p2 = c\<rparr>
         # exec_from (i + length pre + length (open_tag k @ c @ close_tag k)) s"
proof (induction pre arbitrary: i)
  case Nil
  then obtain x xs where dx: "drop i s = x # xs" by (cases "drop i s") auto
  with Nil have r: "regex_at (drop i s) = Some (k, c)"
    by (auto split: option.splits)
  from dx have "\<not> length s < i" by (cases "length s < i") auto
  with r show ?case by (simp add: exec_from.simps [of i])
next
  case (Cons y pre)
  then obtain x xs where dx: "drop i s = x # xs" by (cases "drop i s") auto
  then have d: "drop (Suc i) s = xs" by (metis drop_Suc tl_drop list.sel(3))
  from dx Cons.prems have r: "regex_at (drop i s) = None"
    and f: "first_match xs = Some (pre, k, c, rest)"
    by (auto split: option.splits)
  from dx have "\<not> length s < i" by (cases "length s < i") auto
  with r have "exec_from i s = exec_from (Suc i) s" by (simp add: exec_from.simps [of i])
  with Cons.IH [of "Suc i"] f d show ?case by simp
qed

lemma run_refines:
  "i \<le> length s \<Longrightarrow>
     finish E s (run_callbacks E s (exec_from i s) \<lparr>lastIndex = i, extractedContent = acc\<rparr>)
       = emit E (pieces (drop i s)) acc"
proof (induction "length s - i" arbitrary: i acc rule: less_induct)
  case less
  show ?case
  proof (cases "first_match (drop i s)")
    case None
    with less.prems show ?thesis
      by (simp add: exec_from_none pieces.simps finish_def)
  next
    case (Some q)
    then obtain pre k c rest where q: "first_match (drop i s) = Some (pre, k, c, rest)"
      by (cases q) auto
    let ?w = "open_tag k @ c @ close_tag k"
    let ?j = "i + length pre + length ?w"
    from first_match_decomp [OF q] have dec: "drop i s = pre @ ?w @ rest" by simp
    have len: "length (drop i s) = length pre + length ?w + length rest"
      by (subst dec) simp
    with less.prems have j: "?j \<le> length s" by simp
    have "drop ?j s = drop (length pre + length ?w) (drop i s)"
      by (simp add: add.commute add.left_commute)
    also have "\<dots> = rest" by (subst dec) simp
    finally have dj: "drop ?j s = rest" .
    have sl: "slice s i (i + length pre) = pre"
      unfolding slice_def by (simp add: dec)
    from j have lt: "length s - ?j < length s - i" by (simp add: open_tag_def)
    let ?acc1 = "if pre = [] then acc else acc @ [text_block E pre]"
    show ?thesis
    proof (cases "handler E k c")
      case (Inl e)
      then show ?thesis
        by (simp add: exec_from_some [OF q] callback_def Let_def sl finish_def
            pieces.simps [of "drop i s"] q)
    next
      case (Inr b)
      have "finish E s (run_callbacks E s (exec_from i s) \<lparr>lastIndex = i, extractedContent = acc\<rparr>)
          = finish E s (run_callbacks E s (exec_from ?j s)
              \<lparr>lastIndex = ?j, extractedContent = ?acc1 @ [b]\<rparr>)"
        by (simp add: exec_from_some [OF q] callback_def Let_def sl Inr add.assoc)
      also have "\<dots> = emit E (pieces (drop ?j s)) (?acc1 @ [b])"
        by (rule less.hyps [OF lt j])
      also have "\<dots> = emit E (pieces rest) (?acc1 @ [b])"
        by (simp only: dj)
      also have "\<dots> = emit E (pieces (drop i s)) acc"
        by (simp add: pieces.simps [of "drop i s"] q Inr)
      finally show ?thesis .
    qed
  qed
qed

lemma processMessage_emit: "processMessage E s = emit E (pieces s) []"
  using run_refines [of 0 s E "[]"] by (simp add: processMessage_def)

lemma emit_prefix:
  "emit E ps acc = (bs, err) \<Longrightarrow>
     length acc \<le> length bs \<and>
     map Inr bs = map Inr acc
       @ map (block_of E) (take (length bs - length acc) (filter (\<lambda>p. p \<noteq> Gap []) ps))"
proof (induction ps arbitrary: acc)
  case Nil
  then show ?case by simp
next
  case (Cons p ps)
  show ?case
  proof (cases p)
    case (Gap g)
    show ?thesis
    proof (cases "g = []")
      case True
      with Gap Cons.prems have "emit E ps acc = (bs, err)" by simp
      from Cons.IH [OF this] Gap True show ?thesis by simp
    next
      case False
      with Gap Cons.prems have "emit E ps (acc @ [text_block E g]) = (bs, err)" by simp
      from Cons.IH [OF this] have l: "Suc (length acc) \<le> length bs"
        and m: "map Inr bs = map Inr (acc @ [text_block E g])
          @ map (block_of E) (take (length bs - Suc (length acc)) (filter (\<lambda>p. p \<noteq> Gap []) ps))"
        by simp_all
      from l obtain n where n: "length bs - length acc = Suc n" and n': "length bs - Suc (length acc) = n"
        by (cases "length bs - length acc") auto
      from l m Gap False show ?thesis by (simp add: n n')
    qed
  next
    case (Region k c)
    show ?thesis
    proof (cases "handler E k c")
      case (Inl e)
      with Region Cons.prems show ?thesis by auto
    next
      case (Inr b)
      with Region Cons.prems have "emit E ps (acc @ [b]) = (bs, err)" by simp
      from Cons.IH [OF this] have l: "Suc (length acc) \<le> length bs"
        and m: "map Inr bs = map Inr (acc @ [b])
          @ map (block_of E) (take (length bs - Suc (length acc)) (filter (\<lambda>p. p \<noteq> Gap []) ps))"
        by simp_all
      from l obtain n where n: "length bs - length acc = Suc n" and n': "length bs - Suc (length acc) = n"
        by (cases "length bs - length acc") auto
      from l m Region Inr show ?thesis by (simp add: n n')
    qed
  qed
qed

lemma emit_complete:
  "emit E ps acc = (bs, None) \<Longrightarrow>
     map Inr bs = map Inr acc @ map (block_of E) (filter (\<lambda>p. p \<noteq> Gap []) ps)"
proof (induction ps arbitrary: acc)
  case Nil
  then show ?case by simp
next
  case (Cons p ps)
  show ?case
  proof (cases p)
    case (Gap g)
    with Cons.prems
    have "emit E ps (if g = [] then acc else acc @ [text_block E g]) = (bs, None)" by simp
    from Cons.IH [OF this] Gap show ?thesis by (cases "g = []") simp_all
  next
    case (Region k c)
    show ?thesis
    proof (cases "handler E k c")
      case (Inl e)
      with Region Cons.prems show ?thesis by simp
    next
      case (Inr b)
      with Region Cons.prems have "emit E ps (acc @ [b]) = (bs, None)" by simp
      from Cons.IH [OF this] Region Inr show ?thesis by simp
    qed
  qed
qed

lemma emit_complete_concat:
  "emit E ps acc = (bs, None) \<Longrightarrow> bs = acc @ concat (map (blocks_of E) ps)"
proof (induction ps arbitrary: acc)
  case Nil
  then show ?case by simp
next
  case (Cons p ps)
  show ?case
  proof (cases p)
    case (Gap g)
    with Cons.prems
    have "emit E ps (if g = [] then acc else acc @ [text_block E g]) = (bs, None)" by simp
    from Cons.IH [OF this] Gap show ?thesis by (cases "g = []") simp_all
  next
    case (Region k c)
    show ?thesis
    proof (cases "handler E k c")
      case (Inl e)
      with Region Cons.prems show ?thesis by simp
    next
      case (Inr b)
      with Region Cons.prems have "emit E ps (acc @ [b]) = (bs, None)" by simp
      from Cons.IH [OF this] Region Inr show ?thesis by simp
    qed
  qed
qed

lemma concat_kept: "concat (map source (kept s)) = s"
proof -
  have "concat (map source (filter (\<lambda>p. p \<noteq> Gap []) ps)) = concat (map source ps)" for ps
    by (induction ps) auto
  then show ?thesis by (simp add: kept_def concat_pieces)
qed




lemma emit_ok:
  "map (block_of E) (filter (\<lambda>p. p \<noteq> Gap []) ps) = map Inr bs \<Longrightarrow>
     emit E ps acc = (acc @ bs, None)"
proof (induction ps arbitrary: acc bs)
  case Nil
  then show ?case by simp
next
  case (Cons p ps)
  show ?case
  proof (cases "p = Gap []")
    case True
    with Cons show ?thesis by simp
  next
    case False
    with Cons.prems obtain b bs' where bs: "bs = b # bs'" and b: "block_of E p = Inr b"
      and r: "map (block_of E) (filter (\<lambda>p. p \<noteq> Gap []) ps) = map Inr bs'"
      by (cases bs) auto
    from Cons.IH [OF r] have "emit E ps (acc @ [b]) = (acc @ b # bs', None)" by simp
    with False b bs show ?thesis by (cases p) auto
  qed
qed

lemma emit_append:
  "emit E ps acc = (bs, None) \<Longrightarrow> emit E (ps @ qs) acc = emit E qs bs"
proof (induction ps arbitrary: acc)
  case Nil
  then show ?case by simp
next
  case (Cons p ps)
  then show ?case by (cases p) (auto split: sum.splits)
qed

lemma emit_extends: "emit E ps acc = (r, err) \<Longrightarrow> take (length acc) r = acc"
proof (induction ps arbitrary: acc)
  case Nil
  then show ?case by simp
next
  case (Cons p ps)
  show ?case
  proof (cases p)
    case (Gap g)
    with Cons.prems
    have e: "emit E ps (if g = [] then acc else acc @ [text_block E g]) = (r, err)" by simp
    show ?thesis
    proof (cases "g = []")
      case True
      with e Cons.IH show ?thesis by simp
    next
      case False
      with e have "emit E ps (acc @ [text_block E g]) = (r, err)" by simp
      from Cons.IH [OF this] have "take (length (acc @ [text_block E g])) r = acc @ [text_block E g]" .
      then have "take (length acc) (take (length (acc @ [text_block E g])) r) = acc" by simp
      then show ?thesis by (simp add: min_def)
    qed
  next
    case (Region k c)
    show ?thesis
    proof (cases "handler E k c")
      case (Inl e)
      with Region Cons.prems show ?thesis by simp
    next
      case (Inr b)
      with Region Cons.prems have "emit E ps (acc @ [b]) = (r, err)" by simp
      from Cons.IH [OF this] have "take (length (acc @ [b])) r = acc @ [b]" .
      then have "take (length acc) (take (length (acc @ [b])) r) = acc" by simp
      then show ?thesis by (simp add: min_def)
    qed
  qed
qed

lemma region_block:
  assumes "pieces s = ps @ Region k c # qs"
    and "map (block_of E) (filter (\<lambda>p. p \<noteq> Gap []) ps) = map Inr bs"
    and "handler E k c = Inr b"
  shows "take (Suc (length bs)) (fst (processMessage E s)) = bs @ [b]"
proof -
  from emit_ok [OF assms(2), of "[]"] have "emit E ps [] = (bs, None)" by simp
  from emit_append [OF this, of "Region k c # qs"] assms(3)
  have e: "emit E (pieces s) [] = emit E qs (bs @ [b])" by (simp add: assms(1))
  obtain r err where r: "emit E qs (bs @ [b]) = (r, err)" by (cases "emit E qs (bs @ [b])")
  from emit_extends [OF r] have "take (Suc (length bs)) r = bs @ [b]" by simp
  with e r show ?thesis by (simp add: processMessage_emit)
qed









lemma find_sub_first:
  "find_sub pat s = Some (b, a) \<Longrightarrow> s = u @ pat @ v \<Longrightarrow> length b \<le> length u"
proof (induction s arbitrary: b u)
  case Nil
  then show ?case by (simp split: if_splits)
next
  case (Cons c cs)
  show ?case
  proof (cases "prefix pat (c # cs)")
    case True
    with Cons.prems(1) show ?thesis by simp
  next
    case False
    with Cons.prems(1) obtain b' where f: "find_sub pat cs = Some (b', a)" and b: "b = c # b'"
      by (auto split: option.splits)
    from False Cons.prems(2) have "u \<noteq> []" by (auto simp: prefix_def)
    with Cons.prems(2) obtain u' where u: "u = c # u'" and cs: "cs = u' @ pat @ v"
      by (cases u) auto
    from Cons.IH [OF f cs] b u show ?thesis by simp
  qed
qed

lemma find_sub_complete: "find_sub pat (u @ pat @ v) \<noteq> None"
proof (induction u)
  case Nil
  show ?case
  proof (cases "pat @ v")
    case Nil
    then show ?thesis by simp
  next
    case (Cons x xs)
    have "prefix pat (pat @ v)" by simp
    with Cons show ?thesis by simp
  qed
next
  case (Cons x u)
  then show ?case by (auto split: option.splits)
qed

lemma not_word_newline: "\<not> is_word newline"
  by (simp add: is_word_def newline_def)

lemma fence_at_Some:
  assumes "fence_at s = Some (lang, body)"
  shows "\<exists>post. s = fence @ lang @ [newline] @ body @ fence @ post
           \<and> (\<forall>c \<in> set lang. is_word c)
           \<and> (\<forall>u v. body @ fence @ post = u @ fence @ v \<longrightarrow> length body \<le> length u)"
proof -
  let ?r = "drop (length fence) s"
  from assms have p: "prefix fence s"
    by (simp add: fence_at_def split: if_splits)
  then have s: "s = fence @ ?r" by (auto simp: prefix_def)
  from assms p obtain r2 where d: "dropWhile is_word ?r = newline # r2"
    by (auto simp: fence_at_def split: list.splits if_splits)
  with assms p obtain post where f: "find_sub fence r2 = Some (body, post)"
    and l: "lang = takeWhile is_word ?r"
    by (auto simp: fence_at_def split: option.splits)
  have "?r = takeWhile is_word ?r @ dropWhile is_word ?r" by simp
  with d l have r: "?r = lang @ newline # r2" by simp
  from find_sub_decomp [OF f] have r2: "r2 = body @ fence @ post" .
  from l have w: "\<forall>c \<in> set lang. is_word c" by (auto dest: set_takeWhileD)
  have m: "\<forall>u v. body @ fence @ post = u @ fence @ v \<longrightarrow> length body \<le> length u"
    using find_sub_first [OF f] r2 by auto
  from s r r2 have "s = fence @ lang @ [newline] @ body @ fence @ post" by simp
  with w m show ?thesis by blast
qed

lemma fence_at_complete:
  assumes "\<forall>c \<in> set lang. is_word c"
  shows "fence_at (fence @ lang @ [newline] @ body @ fence @ post) \<noteq> None"
proof -
  let ?s = "fence @ lang @ [newline] @ body @ fence @ post"
  have d: "drop (length fence) ?s = lang @ newline # body @ fence @ post" by simp
  from assms have "dropWhile is_word (lang @ newline # body @ fence @ post)
      = dropWhile is_word (newline # body @ fence @ post)"
    by (intro dropWhile_append2) auto
  then have dw: "dropWhile is_word (lang @ newline # body @ fence @ post)
      = newline # body @ fence @ post"
    by (simp add: not_word_newline)
  obtain b a where "find_sub fence (body @ fence @ post) = Some (b, a)"
    using find_sub_complete [of fence body post] by auto
  then show ?thesis
    unfolding fence_at_def d by (simp add: dw)
qed

lemma code_exec_Some:
  "code_exec p2 = Some (lang, body) \<Longrightarrow>
     \<exists>pre post. fenced p2 pre lang body post
       \<and> (\<forall>pre' lang' body' post'. fenced p2 pre' lang' body' post' \<longrightarrow> length pre \<le> length pre')
       \<and> (\<forall>u v. body @ fence @ post = u @ fence @ v \<longrightarrow> length body \<le> length u)"
proof (induction p2)
  case Nil
  then show ?case by simp
next
  case (Cons c cs)
  show ?case
  proof (cases "fence_at (c # cs)")
    case (Some m)
    with Cons.prems have "fence_at (c # cs) = Some (lang, body)" by simp
    from fence_at_Some [OF this] obtain post where
      "c # cs = fence @ lang @ [newline] @ body @ fence @ post"
      "\<forall>c \<in> set lang. is_word c"
      "\<forall>u v. body @ fence @ post = u @ fence @ v \<longrightarrow> length body \<le> length u"
      by blast
    then have "fenced (c # cs) [] lang body post
       \<and> (\<forall>pre' lang' body' post'. fenced (c # cs) pre' lang' body' post' \<longrightarrow> length ([]::string) \<le> length pre')
       \<and> (\<forall>u v. body @ fence @ post = u @ fence @ v \<longrightarrow> length body \<le> length u)"
      by (simp add: fenced_def)
    then show ?thesis by blast
  next
    case None
    with Cons.prems have "code_exec cs = Some (lang, body)" by simp
    from Cons.IH [OF this] obtain pre post where
      f: "fenced cs pre lang body post"
      and mp: "\<forall>pre' lang' body' post'. fenced cs pre' lang' body' post' \<longrightarrow> length pre \<le> length pre'"
      and mb: "\<forall>u v. body @ fence @ post = u @ fence @ v \<longrightarrow> length body \<le> length u"
      by blast
    from f have f': "fenced (c # cs) (c # pre) lang body post" by (simp add: fenced_def)
    have "length (c # pre) \<le> length pre'" if h: "fenced (c # cs) pre' lang' body' post'"
      for pre' lang' body' post'
    proof (cases pre')
      case Nil
      with h have "c # cs = fence @ lang' @ [newline] @ body' @ fence @ post'"
        and "\<forall>c \<in> set lang'. is_word c" by (simp_all add: fenced_def)
      with fence_at_complete [of lang' body' post'] None show ?thesis by simp
    next
      case (Cons x pre'')
      with h have "fenced cs pre'' lang' body' post'" by (simp add: fenced_def)
      with mp have "length pre \<le> length pre''" by blast
      with Cons show ?thesis by simp
    qed
    with f' mb show ?thesis by blast
  qed
qed

lemma code_exec_None:
  "code_exec p2 = None \<Longrightarrow> \<not> fenced p2 pre lang body post"
proof (induction p2 arbitrary: pre)
  case Nil
  then show ?case by (simp add: fenced_def fence_def)
next
  case (Cons c cs)
  then have n: "fence_at (c # cs) = None" and e: "code_exec cs = None"
    by (auto split: option.splits)
  show ?case
  proof
    assume h: "fenced (c # cs) pre lang body post"
    show False
    proof (cases pre)
      case Nil
      with h have "c # cs = fence @ lang @ [newline] @ body @ fence @ post"
        and "\<forall>c \<in> set lang. is_word c" by (simp_all add: fenced_def)
      with fence_at_complete [of lang body post] n show False by simp
    next
      case (Cons x pre')
      with h have "fenced cs pre' lang body post" by (simp add: fenced_def)
      with Cons.IH [OF e] show False by blast
    qed
  qed
qed

section \<open>Properties of the message list and of the vote\<close>

text \<open>
  C10. When a user message that is not pending is added and the last message of the list
  is a user message, that last message is removed first and the new one is then appended (its
  identifier is the length of the list after the removal, plus one): the list keeps its
  length, so the step is not an append.
\<close>

theorem handleUserMessage_replaces_last_user:
  assumes "ms \<noteq> []" and "isUser (last ms)"
  shows "handleUserMessage False newMessage ms =
           butlast ms @
             [\<lparr>msg_id = Some (Count (length ms)), isUser = True, isLoading = False,
               m_text = Some newMessage, isError = False, isFirst = None, sources = None\<rparr>]
         \<and> length (handleUserMessage False newMessage ms) = length ms
         \<and> (\<forall>m. handleUserMessage False newMessage ms \<noteq> ms @ [m])"
proof -
  from assms(1) have len: "length (butlast ms) + 1 = length ms" by simp
  from assms have eq: "handleUserMessage False newMessage ms =
           butlast ms @
             [\<lparr>msg_id = Some (Count (length ms)), isUser = True, isLoading = False,
               m_text = Some newMessage, isError = False, isFirst = None, sources = None\<rparr>]"
    unfolding handleUserMessage_def Let_def
    by (cases ms) (simp_all del: butlast.simps last.simps)
  then have l: "length (handleUserMessage False newMessage ms) = length ms"
    using len by simp
  have "\<forall>m. handleUserMessage False newMessage ms \<noteq> ms @ [m]"
  proof
    fix m
    show "handleUserMessage False newMessage ms \<noteq> ms @ [m]"
    proof
      assume "handleUserMessage False newMessage ms = ms @ [m]"
      then have "length (handleUserMessage False newMessage ms) = Suc (length ms)" by simp
      with l show False by simp
    qed
  qed
  with eq l show ?thesis by blast
qed

theorem handleUserMessage_replaces_last_user_witness:
  "handleUserMessage False ''second'' [greeting (0::nat), user_msg 2 ''first'']
     = [greeting 0, user_msg 2 ''second'' :: (nat, nat) message]"
  using handleUserMessage_replaces_last_user
    [of "[greeting (0::nat), user_msg 2 ''first'' :: (nat, nat) message]" "''second''"]
  by (simp add: user_msg_def)

text \<open>
  C9. Once the vote of an assistant message is set, no later vote attempt changes it:
  each attempt returns the same vote and sends nothing, whatever the attempts are.
\<close>

theorem vote_is_final:
  assumes "selectedVote = Some v"
  shows "fold (\<lambda>(i, w) sv. fst (handlevote i w sv)) attempts selectedVote = Some v
         \<and> (\<forall>i w. handlevote i w selectedVote = (Some v, None))"
proof -
  have "fold (\<lambda>(i, w) sv. fst (handlevote i w sv)) attempts (Some v) = Some v"
    by (induction attempts) (auto simp: handlevote_def)
  with assms show ?thesis by (simp add: handlevote_def)
qed

theorem vote_is_final_witness:
  "fst (handlevote (1::nat) True None) = Some True
   \<and> fold (\<lambda>(i, w) sv. fst (handlevote i w sv))
        [(1::nat, False), (1, True), (1, False)] (Some True) = Some True
   \<and> handlevote (1::nat) False (Some True) = (Some True, None)"
  using vote_is_final [of "Some True" True "[(1::nat, False), (1, True), (1, False)]"]
  by (simp add: handlevote_def)

section \<open>Properties of the session identifier and of a failed request\<close>

text \<open>
  C7. A stored session identifier that does not start with \<open>sess_\<close> is never attached to
  the chat request: the request carries the query alone, before and after the page's
  \<open>onMounted\<close>, which moreover removes such a value from the storage when it is not the
  empty string.
\<close>

theorem invalid_session_never_sent:
  assumes "localStorage pg ''session_id'' = Some v" and "\<not> prefix ''sess_'' v"
  shows "fst (fetchCHAT_send msg pg) = \<lparr>query = msg, session_id = None\<rparr>
         \<and> fst (fetchCHAT_send msg (onMounted r' pg)) = \<lparr>query = msg, session_id = None\<rparr>
         \<and> (v \<noteq> [] \<longrightarrow> localStorage (onMounted r' pg) ''session_id'' = None)"
proof -
  have f: "fst (fetchCHAT_send msg p) = chat_data msg (localStorage p)"
    for p :: "('a, 'b) page"
    by (simp add: fetchCHAT_send_def Let_def)
  from assms have 1: "chat_data msg (localStorage pg) = \<lparr>query = msg, session_id = None\<rparr>"
    by (simp add: chat_data_def)
  from assms
  have 2: "chat_data msg (localStorage (onMounted r' pg)) = \<lparr>query = msg, session_id = None\<rparr>"
    by (simp add: chat_data_def onMounted_def Let_def)
  from assms have 3: "v \<noteq> [] \<longrightarrow> localStorage (onMounted r' pg) ''session_id'' = None"
    by (simp add: onMounted_def Let_def)
  from 1 2 3 show ?thesis by (simp add: f)
qed

theorem invalid_session_never_sent_witness:
  "fst (fetchCHAT_send ''hola'' page0) = \<lparr>query = ''hola'', session_id = None\<rparr>
   \<and> localStorage (onMounted (2::nat) page0) ''session_id'' = None"
  using invalid_session_never_sent [of page0 "''abc123''" "''hola''" 2]
  by (simp add: page0_def)

text \<open>
  A rejected call, whatever the page is when it settles: the last message of the list is
  replaced by the error message, and the storage is not written. When nothing has happened
  since the send, that last message is the placeholder of the send.
\<close>

lemma rejected_replaces_last:
  "messages (fetchCHAT_settle r Rejected pg) =
     butlast (messages pg)
       @ [\<lparr>msg_id = Some (Random r), isUser = False, isLoading = False,
           m_text = Some ''Lo siento, ha ocurrido un error. Por favor, intenta de nuevo.'',
           isError = True, isFirst = Some (messages pg = []), sources = None\<rparr>]
   \<and> localStorage (fetchCHAT_settle r Rejected pg) = localStorage pg"
  by (simp add: fetchCHAT_settle_def handleBotMessage_def error_message_def)

lemma rejected_right_after_send:
  "messages (snd (fetchCHAT_send msg pg)) =
     handleUserMessage False msg (messages pg)
       @ [\<lparr>msg_id = None, isUser = False, isLoading = True, m_text = None, isError = False,
           isFirst = None, sources = None\<rparr>]
   \<and> messages (run [Send msg, Settle r Rejected] pg) =
     handleUserMessage False msg (messages pg)
       @ [\<lparr>msg_id = Some (Random r), isUser = False, isLoading = False,
           m_text = Some ''Lo siento, ha ocurrido un error. Por favor, intenta de nuevo.'',
           isError = True, isFirst = Some False, sources = None\<rparr>]
   \<and> localStorage (run [Send msg, Settle r Rejected] pg) = localStorage pg"
  by (simp add: run_def fetchCHAT_send_def fetchCHAT_settle_def Let_def handleBotMessage_def
      error_message_def)

text \<open>
  C8. The claim holds of a send that is alone in flight (lemma \<open>rejected_right_after_send\<close>),
  and the code breaks it otherwise. On a freshly mounted page the user sends \<open>a\<close>, then \<open>b\<close>
  while the first call is in flight, and both calls are rejected. The first rejection
  replaces the placeholder of the second send; the second rejection removes the first error
  message, which is a prior message, and the placeholder of the first send stays in the
  list. A clear while the call is in flight makes the rejection remove the greeting.
\<close>

theorem second_failure_removes_first_error:
  "map m_text (messages (run [Send ''a'', Send ''b'', Settle 1 Rejected] page1)) =
     [m_text (greeting 0 :: (nat, nat) message), Some ''a'', None, Some ''b'',
      Some ''Lo siento, ha ocurrido un error. Por favor, intenta de nuevo.'']
   \<and> map msg_id (messages (run [Send ''a'', Send ''b'', Settle 1 Rejected] page1)) =
     [Some (Random 0), Some (Count 2), None, Some (Count 4), Some (Random 1)]
   \<and> map isLoading (messages (run [Send ''a'', Send ''b'', Settle 1 Rejected] page1)) =
     [False, False, True, False, False]
   \<and> map msg_id (messages (run [Send ''a'', Send ''b'', Settle 1 Rejected, Settle 2 Rejected] page1)) =
     [Some (Random 0), Some (Count 2), None, Some (Count 4), Some (Random 2)]
   \<and> map isLoading (messages (run [Send ''a'', Send ''b'', Settle 1 Rejected, Settle 2 Rejected] page1)) =
     [False, False, True, False, False]
   \<and> map isError (messages (run [Send ''a'', Send ''b'', Settle 1 Rejected, Settle 2 Rejected] page1)) =
     [False, False, False, False, True]
   \<and> map msg_id (messages (run [Send ''a'', Clean 5, Settle 1 Rejected] page1)) =
     [Some (Random 1)]
   \<and> map isError (messages (run [Send ''a'', Clean 5, Settle 1 Rejected] page1)) = [True]"
  by (simp add: run_def page1_def onMounted_def fetchCHAT_send_def fetchCHAT_settle_def Let_def
      handleUserMessage_def handleBotMessage_def error_message_def greeting_def cleanChat_def
      cleanMessages_def numeral_eq_Suc)

section \<open>Properties of the local echo\<close>

lemma split_on_nonempty: "split_on c s \<noteq> []"
  by (induction s) (auto split: list.splits)

lemma split_on_single: "c \<notin> set s \<Longrightarrow> split_on c s = [s]"
  by (induction s) auto

lemma split_on_many: "c \<in> set s \<Longrightarrow> tl (split_on c s) \<noteq> []"
proof (induction s)
  case Nil
  then show ?case by simp
next
  case (Cons x xs)
  show ?case
  proof (cases "x = c")
    case True
    then show ?thesis by (simp add: split_on_nonempty)
  next
    case False
    with Cons.prems have "c \<in> set xs" by simp
    with Cons.IH have "tl (split_on c xs) \<noteq> []" by simp
    with False show ?thesis by (cases "split_on c xs") auto
  qed
qed



lemma last_tl_split_on:
  "tl (split_on c s) = [] \<longleftrightarrow> c \<notin> set s"
  using split_on_many [of c s] split_on_single [of c s] by auto






section \<open>Properties of the content block parser\<close>

text \<open>
  C1, as the code has it. The blocks emitted stand, in order, for the first kept pieces of
  the decomposition (a gap that is not empty gives a text block rendered from the gap, a
  tagged region the block of its handler). When no handler throws, every kept piece has
  its block, and the source spans of the blocks, untrimmed and in emission order,
  concatenate to the message.
\<close>

theorem blocks_cover_message:
  "map Inr (fst (processMessage E s))
     = map (block_of E) (take (length (fst (processMessage E s))) (kept s))
   \<and> (snd (processMessage E s) = None \<longrightarrow>
        concat (emitted_spans E s) = s \<and> length (fst (processMessage E s)) = length (kept s))"
proof -
  obtain bs err where r: "emit E (pieces s) [] = (bs, err)" by (cases "emit E (pieces s) []")
  then have p: "processMessage E s = (bs, err)" by (simp add: processMessage_emit)
  from emit_prefix [OF r] have 1: "map Inr bs = map (block_of E) (take (length bs) (kept s))"
    by (simp add: kept_def)
  have 2: "concat (emitted_spans E s) = s \<and> length bs = length (kept s)" if "err = None"
  proof -
    from r that have "emit E (pieces s) [] = (bs, None)" by simp
    from emit_complete [OF this] have "map Inr bs = map (block_of E) (kept s)"
      by (simp add: kept_def)
    then have "length (map Inr bs :: (js_error + 'a block) list)
        = length (map (block_of E) (kept s))" by (simp only:)
    then have l: "length bs = length (kept s)" by (simp only: length_map)
    then show ?thesis by (simp add: emitted_spans_def p concat_kept)
  qed
  from 1 2 p show ?thesis by simp
qed

theorem blocks_cover_message_witness:
  "processMessage E0 ''See <citations>[1] Spec</citations> results: <table><tr><td>A</td></tr></table>''
     = ([Plain ''text'' ''See'', Plain ''citations'' ''[1] Spec'', Plain ''text'' ''results:'',
         Plain ''table'' ''<tr><td>A</td></tr>''], None)
   \<and> emitted_spans E0 ''See <citations>[1] Spec</citations> results: <table><tr><td>A</td></tr></table>''
     = [''See '', ''<citations>[1] Spec</citations>'', '' results: '', ''<table><tr><td>A</td></tr></table>'']
   \<and> concat (emitted_spans E0 ''See <citations>[1] Spec</citations> results: <table><tr><td>A</td></tr></table>'')
     = ''See <citations>[1] Spec</citations> results: <table><tr><td>A</td></tr></table>''"
proof -
  have p: "processMessage E0 ''See <citations>[1] Spec</citations> results: <table><tr><td>A</td></tr></table>''
     = ([Plain ''text'' ''See'', Plain ''citations'' ''[1] Spec'', Plain ''text'' ''results:'',
         Plain ''table'' ''<tr><td>A</td></tr>''], None)"
    by code_simp
  have e: "emitted_spans E0 ''See <citations>[1] Spec</citations> results: <table><tr><td>A</td></tr></table>''
     = [''See '', ''<citations>[1] Spec</citations>'', '' results: '', ''<table><tr><td>A</td></tr></table>'']"
    by code_simp
  from p e blocks_cover_message [of E0 "''See <citations>[1] Spec</citations> results: <table><tr><td>A</td></tr></table>''"]
  show ?thesis by simp
qed

text \<open>
  C1, as the specification words it, speaks of every input. A chart region whose content
  is not JSON makes the handler throw before any block is pushed: no block is emitted, and
  the spans of the emitted blocks do not give the message back.
\<close>

theorem malformed_chart_breaks_cover:
  "processMessage E0 ''<chart>x</chart>'' = ([], Some SyntaxError)
   \<and> concat (emitted_spans E0 ''<chart>x</chart>'') \<noteq> ''<chart>x</chart>''"
  by code_simp

text \<open>
  C5, as the code has it. On a parse that runs to its end, the blocks are those of the
  pieces in order, and a gap (before the first region, between two regions, after the last)
  gives its text block exactly when it is not empty; the text of the block is the gap
  trimmed and rendered.
\<close>

theorem gaps_give_text_blocks:
  assumes "snd (processMessage E s) = None"
  shows "fst (processMessage E s) = concat (map (blocks_of E) (pieces s))
         \<and> (\<forall>g. blocks_of E (Gap g)
                = (if g = [] then [] else [Plain ''text'' (cleanContent E (trim g))]))"
proof -
  obtain bs where "emit E (pieces s) [] = (bs, None)"
    using assms by (cases "emit E (pieces s) []") (simp add: processMessage_emit)
  from emit_complete_concat [OF this] this show ?thesis
    by (simp add: processMessage_emit text_block_def)
qed

theorem gaps_give_text_blocks_witness:
  "pieces ''hi <image>u</image>'' = [Gap ''hi '', Region ''image'' ''u'', Gap []]
   \<and> processMessage E0 ''hi <image>u</image>'' = ([Plain ''text'' ''hi'', Plain ''image'' ''u''], None)"
proof -
  have p: "pieces ''hi <image>u</image>'' = [Gap ''hi '', Region ''image'' ''u'', Gap []]"
    by code_simp
  have n: "snd (processMessage E0 ''hi <image>u</image>'') = None"
    by code_simp
  have b: "concat (map (blocks_of E0) [Gap ''hi '', Region ''image'' ''u'', Gap []])
      = [Plain ''text'' ''hi'', Plain ''image'' ''u'']"
    by code_simp
  from gaps_give_text_blocks [OF n] p b n show ?thesis
    by (simp add: prod_eq_iff)
qed

text \<open>
  C5, as the specification words it, gives no block to a span that is empty after
  trimming. The blank between two regions is such a span, and the code emits a text block
  for it, with the empty text.
\<close>

theorem blank_gap_gives_text_block:
  "pieces ''<doc>a</doc> <doc>b</doc>''
     = [Gap [], Region ''doc'' ''a'', Gap '' '', Region ''doc'' ''b'', Gap []]
   \<and> trim '' '' = []
   \<and> processMessage E0 ''<doc>a</doc> <doc>b</doc>''
     = ([Plain ''doc'' ''a'', Plain ''text'' [], Plain ''doc'' ''b''], None)"
  by code_simp







text \<open>
  C4, as the code has it. When the content of a code region of a message contains a
  fenced-code sub-pattern, the block emitted for the region takes the language token and
  the body (trimmed and rendered) of the leftmost one, the body ending at the first
  closing fence; otherwise the whole content is the body and the language is the sentinel
  \<open>plain-text\<close>. \<open><code></code>\<close> gives the sentinel \<open>plain-text\<close> and the empty body.
\<close>

theorem code_block_language_and_body:
  assumes "pieces s = ps @ Region ''code'' p2 # qs"
    and "map (block_of E) (filter (\<lambda>p. p \<noteq> Gap []) ps) = map Inr bs"
  shows
   "((\<exists>pre lang body post. fenced p2 pre lang body post) \<longrightarrow>
      (\<exists>pre lang body post. fenced p2 pre lang body post
         \<and> (\<forall>pre' lang' body' post'. fenced p2 pre' lang' body' post' \<longrightarrow> length pre \<le> length pre')
         \<and> (\<forall>u v. body @ fence @ post = u @ fence @ v \<longrightarrow> length body \<le> length u)
         \<and> handler E ''code'' p2 = Inr (CodeB (cleanContent E body) lang)
         \<and> take (Suc (length bs)) (fst (processMessage E s))
             = bs @ [CodeB (cleanContent E body) lang]))
    \<and> (\<not> (\<exists>pre lang body post. fenced p2 pre lang body post) \<longrightarrow>
         handler E ''code'' p2 = Inr (CodeB (cleanContent E p2) ''plain-text'')
         \<and> take (Suc (length bs)) (fst (processMessage E s))
             = bs @ [CodeB (cleanContent E p2) ''plain-text''])
    \<and> processMessage E ''<code></code>'' = ([CodeB (marked_parse E True []) ''plain-text''], None)"
proof -
  have h: "handler E ''code'' p2 = code_handler E p2"
    by (simp add: handler_def typeHandlers_def)
  have 1: "\<exists>pre lang body post. fenced p2 pre lang body post
         \<and> (\<forall>pre' lang' body' post'. fenced p2 pre' lang' body' post' \<longrightarrow> length pre \<le> length pre')
         \<and> (\<forall>u v. body @ fence @ post = u @ fence @ v \<longrightarrow> length body \<le> length u)
         \<and> handler E ''code'' p2 = Inr (CodeB (cleanContent E body) lang)
         \<and> take (Suc (length bs)) (fst (processMessage E s))
             = bs @ [CodeB (cleanContent E body) lang]"
    if "\<exists>pre lang body post. fenced p2 pre lang body post"
  proof (cases "code_exec p2")
    case None
    with that code_exec_None show ?thesis by blast
  next
    case (Some m)
    obtain lang body where m: "code_exec p2 = Some (lang, body)" using Some by (cases m) auto
    then have b: "handler E ''code'' p2 = Inr (CodeB (cleanContent E body) lang)"
      by (simp add: h code_handler_def)
    from region_block [OF assms b]
    have "take (Suc (length bs)) (fst (processMessage E s)) = bs @ [CodeB (cleanContent E body) lang]" .
    with b code_exec_Some [OF m] show ?thesis by blast
  qed
  have 2: "handler E ''code'' p2 = Inr (CodeB (cleanContent E p2) ''plain-text'')
         \<and> take (Suc (length bs)) (fst (processMessage E s))
             = bs @ [CodeB (cleanContent E p2) ''plain-text'']"
    if n: "\<not> (\<exists>pre lang body post. fenced p2 pre lang body post)"
  proof (cases "code_exec p2")
    case None
    then have b: "handler E ''code'' p2 = Inr (CodeB (cleanContent E p2) ''plain-text'')"
      by (simp add: h code_handler_def)
    from region_block [OF assms b] b show ?thesis by simp
  next
    case (Some m)
    obtain lang body where m: "code_exec p2 = Some (lang, body)" using Some by (cases m) auto
    from code_exec_Some [OF m] n show ?thesis by blast
  qed
  have p: "pieces ''<code></code>'' = [Gap [], Region ''code'' [], Gap []]"
    by code_simp
  have 3: "processMessage E ''<code></code>'' = ([CodeB (marked_parse E True []) ''plain-text''], None)"
    by (simp add: processMessage_emit p handler_def typeHandlers_def code_handler_def
        cleanContent_def trim_def)
  from 1 2 3 show ?thesis by blast
qed

theorem code_block_language_and_body_witness:
  "processMessage E1 (''run <code>'' @ fence @ ''py'' @ [newline] @ ''print(1)'' @ fence @ ''</code> now'')
     = ([Plain ''text'' ''<p>run</p>'', CodeB ''<p>print(1)</p>'' ''py'',
         Plain ''text'' ''<p>now</p>''], None)
   \<and> \<not> (\<exists>pre lang body post. fenced ''let x = 1'' pre lang body post)
   \<and> take 2 (fst (processMessage E1 ''so <code>let x = 1</code>''))
       = [Plain ''text'' ''<p>so</p>'', CodeB ''<p>let x = 1</p>'' ''plain-text'']
   \<and> processMessage E1 ''<code></code>'' = ([CodeB ''<p></p>'' ''plain-text''], None)"
proof -
  let ?s = "''run <code>'' @ fence @ ''py'' @ [newline] @ ''print(1)'' @ fence @ ''</code> now''"
  have a: "processMessage E1 ?s
     = ([Plain ''text'' ''<p>run</p>'', CodeB ''<p>print(1)</p>'' ''py'',
         Plain ''text'' ''<p>now</p>''], None)"
    by code_simp
  have "code_exec ''let x = 1'' = None" by code_simp
  then have n: "\<not> (\<exists>pre lang body post. fenced ''let x = 1'' pre lang body post)"
    using code_exec_None by blast
  have p: "pieces ''so <code>let x = 1</code>''
      = [Gap ''so ''] @ Region ''code'' ''let x = 1'' # [Gap []]"
    by code_simp
  have b: "map (block_of E1) (filter (\<lambda>p. p \<noteq> Gap []) [Gap ''so ''])
      = map Inr [Plain ''text'' ''<p>so</p>'']"
    by code_simp
  have c: "cleanContent E1 ''let x = 1'' = ''<p>let x = 1</p>''" by code_simp
  note t = code_block_language_and_body [OF p b]
  from t n have "take (Suc (length [Plain ''text'' ''<p>so</p>'' :: nat block]))
        (fst (processMessage E1 ''so <code>let x = 1</code>''))
      = [Plain ''text'' ''<p>so</p>''] @ [CodeB (cleanContent E1 ''let x = 1'') ''plain-text'']"
    by blast
  with c have 2: "take 2 (fst (processMessage E1 ''so <code>let x = 1</code>''))
       = [Plain ''text'' ''<p>so</p>'', CodeB ''<p>let x = 1</p>'' ''plain-text'']"
    by (simp add: numeral_2_eq_2)
  from t have "processMessage E1 ''<code></code>''
      = ([CodeB (marked_parse E1 True []) ''plain-text''], None)"
    by blast
  then have 3: "processMessage E1 ''<code></code>'' = ([CodeB ''<p></p>'' ''plain-text''], None)"
    by (simp add: E1_def)
  from a n 2 3 show ?thesis by blast
qed

text \<open>
  C4, as the specification words it, names the sentinel \<open>plain text\<close>. The code writes it
  with a hyphen.
\<close>

theorem code_sentinel_is_plain_hyphen_text:
  "processMessage E0 ''<code></code>'' = ([CodeB [] ''plain-text''], None)
   \<and> ''plain-text'' \<noteq> ''plain text''"
  by code_simp

end
